theory Spec2Isabelle
  imports Main "HOL-Library.Multiset" "HOL-Library.Multiset_Order"
begin

section \<open>Paper records and provenance\<close>

text \<open>
  A \<open>Paper\<close> of \<^verbatim>\<open>search.py\<close> has an id, a title and two nullable parent links,
  \<^verbatim>\<open>cited_paper\<close> and \<^verbatim>\<open>referenced_by_paper\<close>, both \<^verbatim>\<open>None\<close> after construction.
  A parent is never mutated once a child points to it, so the link is
  embedded by value.
\<close>

datatype paper =
  Paper (pid: string) (title: string)
        (cited_paper: "paper option") (referenced_by_paper: "paper option")

text \<open>\<^verbatim>\<open>Paper(id, title)\<close>: the constructor call of the source.\<close>

definition new_paper :: "string \<Rightarrow> string \<Rightarrow> paper" where
  "new_paper i t = Paper i t None None"

text \<open>\<^verbatim>\<open>self.cited(paper)\<close> and \<^verbatim>\<open>self.referenced_by(paper)\<close>.\<close>

fun cited :: "paper \<Rightarrow> paper \<Rightarrow> paper" where
  "cited (Paper i t c r) p = Paper i t (Some p) r"

fun referenced_by :: "paper \<Rightarrow> paper \<Rightarrow> paper" where
  "referenced_by (Paper i t c r) p = Paper i t c (Some p)"

text \<open>
  \<^verbatim>\<open>get_path_depth\<close>: the \<^verbatim>\<open>cited_paper\<close> link is tested first, the
  \<^verbatim>\<open>referenced_by_paper\<close> link only when the former is \<^verbatim>\<open>None\<close>.
\<close>

fun get_path_depth :: "paper \<Rightarrow> nat" where
  "get_path_depth (Paper i t (Some c) r) = 1 + get_path_depth c"
| "get_path_depth (Paper i t None (Some r)) = 1 + get_path_depth r"
| "get_path_depth (Paper i t None None) = 0"

section \<open>The remote services and the retry client\<close>

text \<open>
  A response carries its status code and, for the paper detail endpoint, the
  two fields read from its JSON object: each is absent (\<open>None\<close>) or a list
  of (paperId, title) entries.
\<close>

record response =
  status_code :: int
  citations :: "(string \<times> string) list option"
  references :: "(string \<times> string) list option"

text \<open>The truth value of a response object of the HTTP library: its \<^verbatim>\<open>ok\<close> flag.\<close>

definition response_ok :: "response \<Rightarrow> bool" where
  "response_ok r = (\<not> (400 \<le> status_code r \<and> status_code r < 600))"

text \<open>
  An HTTP call: a GET of a URL, or the POST to the batch endpoint with its
  \<^verbatim>\<open>fields\<close> parameter and the ids of its JSON body.
\<close>

datatype call = GET string | POST string "string list"

datatype io_exn = ConnectionError | KeyboardInterrupt

datatype error = UnboundLocalError | IO io_exn

datatype outcome = Response response | Raises io_exn

text \<open>
  The remote side: what the \<open>n\<close>-th HTTP call of the run is answered with, a
  response or an exception raised by the HTTP library. The world is the trace
  of the effects so far, oldest first: the HTTP calls issued and the
  durations passed to \<^verbatim>\<open>time.sleep\<close>.
\<close>

type_synonym net = "nat \<Rightarrow> call \<Rightarrow> outcome"

datatype event = Request call | Sleep nat

type_synonym world = "event list"

fun ncalls :: "world \<Rightarrow> nat" where
  "ncalls [] = 0"
| "ncalls (Request c # w) = Suc (ncalls w)"
| "ncalls (Sleep d # w) = ncalls w"

definition http :: "net \<Rightarrow> call \<Rightarrow> world \<Rightarrow> outcome \<times> world" where
  "http net c w = (net (ncalls w) c, w @ [Request c])"

definition time_sleep :: "nat \<Rightarrow> world \<Rightarrow> world" where
  "time_sleep d w = w @ [Sleep d]"

text \<open>
  \<^verbatim>\<open>request_with_retries\<close>: the \<^verbatim>\<open>for attempt in range(max_retries)\<close> loop, with
  the number of attempts left, the current \<^verbatim>\<open>wait_time\<close> and the local
  variable \<^verbatim>\<open>response\<close>, which is unbound (\<open>None\<close>) until the first request.
\<close>

fun retry_loop ::
  "net \<Rightarrow> string \<Rightarrow> nat \<Rightarrow> nat \<Rightarrow> response option \<Rightarrow> world \<Rightarrow> (error + response) \<times> world"
where
  "retry_loop net url 0 wait_time response w =
     (case response of
        None \<Rightarrow> (Inl UnboundLocalError, w)
      | Some r \<Rightarrow> (Inr r, w))"
| "retry_loop net url (Suc n) wait_time response w =
     (case http net (GET url) w of
        (Raises e, w1) \<Rightarrow> (Inl (IO e), w1)
      | (Response r, w1) \<Rightarrow>
          if status_code r \<noteq> 429 then (Inr r, w1)
          else retry_loop net url n (wait_time * 2) (Some r) (time_sleep wait_time w1))"

definition request_with_retries ::
  "net \<Rightarrow> string \<Rightarrow> int \<Rightarrow> world \<Rightarrow> (error + response) \<times> world"
where
  "request_with_retries net url max_retries w =
     retry_loop net url (nat max_retries) 1 None w"

text \<open>The trace of \<open>n\<close> rate-limited attempts: a request, then a sleep, \<open>n\<close> times.\<close>

definition backoff_trace :: "string \<Rightarrow> nat \<Rightarrow> nat \<Rightarrow> event list" where
  "backoff_trace url wt n = concat (map (\<lambda>i. [Request (GET url), Sleep (wt * 2 ^ i)]) [0..<n])"

section \<open>The neighbour fetcher\<close>

definition detail_url :: "string \<Rightarrow> string" where
  "detail_url paper_id =
     ''https://api.semanticscholar.org/graph/v1/paper/'' @ paper_id @
     ''/?fields=citations.paperId,citations.title,references.paperId,references.title''"

text \<open>
  \<^verbatim>\<open>get_citing_and_referenced_papers\<close>: \<^verbatim>\<open>data.get(field, [])\<close> reads an absent
  field as the empty list; every entry becomes a fresh, unparented paper.
\<close>

definition get_citing_and_referenced_papers ::
  "net \<Rightarrow> string \<Rightarrow> world \<Rightarrow> (error + paper list \<times> paper list) \<times> world"
where
  "get_citing_and_referenced_papers net paper_id w =
     (case request_with_retries net (detail_url paper_id) 4 w of
        (Inl e, w1) \<Rightarrow> (Inl e, w1)
      | (Inr response, w1) \<Rightarrow>
          if response_ok response \<and> status_code response = 200 then
            (Inr (map (\<lambda>(i, t). new_paper i t)
                    (case citations response of None \<Rightarrow> [] | Some cs \<Rightarrow> cs),
                  map (\<lambda>(i, t). new_paper i t)
                    (case references response of None \<Rightarrow> [] | Some rs \<Rightarrow> rs)), w1)
          else (Inr ([], []), w1))"

section \<open>The match check\<close>

text \<open>
  The roster \<^verbatim>\<open>editors_paper_ids\<close> is a dictionary iterated in insertion order:
  an association list whose keys are distinct. The findings are a dictionary
  from editor to the list of matched papers. The notices printed on the
  console are not part of the model.
\<close>

type_synonym roster = "(string \<times> string list) list"

text \<open>The inner loop of \<^verbatim>\<open>check_papers\<close>, over the papers of the batch, for one editor.\<close>

fun check_editor ::
  "string \<Rightarrow> string set \<Rightarrow> paper list \<Rightarrow> (string \<rightharpoonup> paper list) \<Rightarrow> (string \<rightharpoonup> paper list)"
where
  "check_editor editor ids [] fnd = fnd"
| "check_editor editor ids (paper # papers) fnd =
     (if pid paper \<in> ids then
        check_editor editor ids papers
          (fnd(editor \<mapsto> (case fnd editor of None \<Rightarrow> [] | Some ps \<Rightarrow> ps) @ [paper]))
      else check_editor editor ids papers fnd)"

fun check_papers ::
  "paper list \<Rightarrow> roster \<Rightarrow> (string \<rightharpoonup> paper list) \<Rightarrow> (string \<rightharpoonup> paper list)"
where
  "check_papers papers [] fnd = fnd"
| "check_papers papers ((editor, editor_paper_ids) # roster) fnd =
     check_papers papers roster (check_editor editor (set editor_paper_ids) papers fnd)"

section \<open>The breadth-first traversal\<close>

record bfs_state =
  fringe :: "paper list"
  found_ids :: "string set"
  findings :: "string \<rightharpoonup> paper list"

text \<open>
  The two \<^verbatim>\<open>for\<close> loops of the loop body, over the citing and over the
  referenced papers; they share \<^verbatim>\<open>found_ids\<close> and \<^verbatim>\<open>new_papers\<close>.
\<close>

fun add_citing ::
  "paper \<Rightarrow> paper list \<Rightarrow> string set \<times> paper list \<Rightarrow> string set \<times> paper list"
where
  "add_citing paper [] (found, new_papers) = (found, new_papers)"
| "add_citing paper (citing_paper # rest) (found, new_papers) =
     (if pid citing_paper \<notin> found then
        add_citing paper rest
          (insert (pid citing_paper) found, new_papers @ [cited citing_paper paper])
      else add_citing paper rest (found, new_papers))"

fun add_referenced ::
  "paper \<Rightarrow> paper list \<Rightarrow> string set \<times> paper list \<Rightarrow> string set \<times> paper list"
where
  "add_referenced paper [] (found, new_papers) = (found, new_papers)"
| "add_referenced paper (referenced_paper # rest) (found, new_papers) =
     (if pid referenced_paper \<notin> found then
        add_referenced paper rest
          (insert (pid referenced_paper) found,
           new_papers @ [referenced_by referenced_paper paper])
      else add_referenced paper rest (found, new_papers))"

text \<open>
  The \<^verbatim>\<open>while fringe\<close> loop of \<^verbatim>\<open>main\<close>. The result is \<open>None\<close> when the loop
  runs forever. An exception other than \<^verbatim>\<open>KeyboardInterrupt\<close> leaves the loop
  and \<^verbatim>\<open>main\<close>; \<^verbatim>\<open>KeyboardInterrupt\<close>, which the model lets arrive during an HTTP
  call, ends the loop with the state reached.
\<close>

partial_function (option) bfs_loop ::
  "net \<Rightarrow> int \<Rightarrow> roster \<Rightarrow> bfs_state \<Rightarrow> world \<Rightarrow> ((error + bfs_state) \<times> world) option"
where
  "bfs_loop net depth editors_paper_ids st w =
     (case fringe st of
        [] \<Rightarrow> Some (Inr st, w)
      | paper # rest \<Rightarrow>
          if int (get_path_depth paper) > depth then Some (Inr (st\<lparr>fringe := rest\<rparr>), w)
          else
            (case get_citing_and_referenced_papers net (pid paper) w of
               (Inl e, w1) \<Rightarrow>
                 if e = IO KeyboardInterrupt then Some (Inr (st\<lparr>fringe := rest\<rparr>), w1)
                 else Some (Inl e, w1)
             | (Inr (citing_papers, referenced_papers), w1) \<Rightarrow>
                 (case add_referenced paper referenced_papers
                         (add_citing paper citing_papers (found_ids st, [])) of
                    (found, new_papers) \<Rightarrow>
                      bfs_loop net depth editors_paper_ids
                        \<lparr>fringe = rest @ new_papers, found_ids = found,
                         findings = check_papers new_papers editors_paper_ids (findings st)\<rparr>
                        w1)))"

text \<open>
  The traversal of \<^verbatim>\<open>main\<close> from the seed papers: the match check of the
  seeds, the initial fringe and \<^verbatim>\<open>found_ids\<close>, then the loop.
\<close>

definition main_bfs ::
  "net \<Rightarrow> int \<Rightarrow> roster \<Rightarrow> paper list \<Rightarrow> world \<Rightarrow> ((error + bfs_state) \<times> world) option"
where
  "main_bfs net depth editors_paper_ids papers w =
     bfs_loop net depth editors_paper_ids
       \<lparr>fringe = papers, found_ids = set (map pid papers),
        findings = check_papers papers editors_paper_ids Map.empty\<rparr> w"

section \<open>The batch lookup of the roster builder\<close>

text \<open>
  The \<^verbatim>\<open>while r.status_code == 429\<close> loop of \<^verbatim>\<open>scrape_editors_paper_ids\<close>, with
  the current \<^verbatim>\<open>wait_time\<close> and the last response \<^verbatim>\<open>r\<close>; \<open>None\<close> when it runs
  forever.
\<close>

partial_function (option) batch_retry ::
  "net \<Rightarrow> string list \<Rightarrow> nat \<Rightarrow> response \<Rightarrow> world \<Rightarrow> ((error + response) \<times> world) option"
where
  "batch_retry net arxiv_ids wait_time r w =
     (if status_code r = 429 then
        (case http net (POST ''title'' arxiv_ids) (time_sleep wait_time w) of
           (Raises e, w1) \<Rightarrow> Some (Inl (IO e), w1)
         | (Response r1, w1) \<Rightarrow>
             if wait_time * 2 > 10 then Some (Inr r1, w1)
             else batch_retry net arxiv_ids (wait_time * 2) r1 w1)
      else Some (Inr r, w))"

text \<open>The first POST of an editor's ids, followed by the retry loop.\<close>

definition batch_lookup ::
  "net \<Rightarrow> string list \<Rightarrow> world \<Rightarrow> ((error + response) \<times> world) option"
where
  "batch_lookup net arxiv_ids w =
     (case http net (POST ''title,paperId'' arxiv_ids) w of
        (Raises e, w1) \<Rightarrow> Some (Inl (IO e), w1)
      | (Response r, w1) \<Rightarrow> batch_retry net arxiv_ids 1 r w1)"

text \<open>The total time slept in a trace.\<close>

fun slept :: "world \<Rightarrow> nat" where
  "slept [] = 0"
| "slept (Request c # w) = slept w"
| "slept (Sleep d # w) = d + slept w"

text \<open>\<^verbatim>\<open>findings.get(editor, [])\<close>: the papers recorded for an editor.\<close>

definition papers_of :: "(string \<rightharpoonup> paper list) \<Rightarrow> string \<Rightarrow> paper list" where
  "papers_of fnd editor = (case fnd editor of None \<Rightarrow> [] | Some ps \<Rightarrow> ps)"

text \<open>
  The provenance parent of a paper, read in the order of \<^verbatim>\<open>get_path_depth\<close>, and
  the papers at most one step from the seeds: a seed, or a paper whose parent
  is a seed.
\<close>

definition parent :: "paper \<Rightarrow> paper option" where
  "parent p = (case cited_paper p of Some c \<Rightarrow> Some c | None \<Rightarrow> referenced_by_paper p)"

definition near_seed :: "paper list \<Rightarrow> paper \<Rightarrow> bool" where
  "near_seed papers p = (p \<in> set papers \<or> (\<exists>s\<in>set papers. parent p = Some s))"

text \<open>
  One pass over the seeds, in order, as a \<^verbatim>\<open>for\<close> loop: each seed is expanded,
  its new neighbours are collected in \<open>news\<close> behind the seeds still to come
  and match-checked; after the last seed the first collected paper is taken
  off and nothing more is done. An exception raised by a fetch ends the pass
  as it ends the loop of \<^verbatim>\<open>main\<close>.
\<close>

fun seed_pass ::
  "net \<Rightarrow> roster \<Rightarrow> paper list \<Rightarrow> paper list \<Rightarrow> string set \<Rightarrow> (string \<rightharpoonup> paper list) \<Rightarrow> world \<Rightarrow>
     (error + bfs_state) \<times> world"
where
  "seed_pass net roster [] news found fnd w =
     (Inr \<lparr>fringe = tl news, found_ids = found, findings = fnd\<rparr>, w)"
| "seed_pass net roster (seed # seeds) news found fnd w =
     (case get_citing_and_referenced_papers net (pid seed) w of
        (Inl e, w1) \<Rightarrow>
          (if e = IO KeyboardInterrupt
           then Inr \<lparr>fringe = seeds @ news, found_ids = found, findings = fnd\<rparr>
           else Inl e, w1)
      | (Inr (citing_papers, referenced_papers), w1) \<Rightarrow>
          (case add_referenced seed referenced_papers
                  (add_citing seed citing_papers (found, [])) of
             (found1, new_papers) \<Rightarrow>
               seed_pass net roster seeds (news @ new_papers) found1
                 (check_papers new_papers roster fnd) w1))"

section \<open>Properties of the retry client\<close>

lemma ncalls_append [simp]: "ncalls (u @ v) = ncalls u + ncalls v"
  by (induction u rule: ncalls.induct) simp_all

lemma backoff_trace_0 [simp]: "backoff_trace url wt 0 = []"
  by (simp add: backoff_trace_def)

lemma backoff_trace_Suc:
  "backoff_trace url wt (Suc n) =
     Request (GET url) # Sleep wt # backoff_trace url (wt * 2) n"
proof -
  have "map (\<lambda>i. [Request (GET url), Sleep (wt * 2 ^ i)]) [0..<Suc n] =
        [Request (GET url), Sleep wt] #
        map (\<lambda>i. [Request (GET url), Sleep (wt * 2 * 2 ^ i)]) [0..<n]"
    by (simp add: upt_conv_Cons map_Suc_upt [symmetric] del: upt_Suc)
  then show ?thesis
    unfolding backoff_trace_def by simp
qed

lemma retry_loop_all_limited:
  assumes "\<And>i. i < n \<Longrightarrow>
             net (ncalls w + i) (GET url) = Response (rs i) \<and> status_code (rs i) = 429"
      and "0 < n \<or> response \<noteq> None"
  shows "retry_loop net url n wt response w =
           (Inr (if n = 0 then the response else rs (n - 1)), w @ backoff_trace url wt n)"
  using assms
proof (induction n arbitrary: w wt response rs)
  case 0
  then show ?case by auto
next
  case (Suc n)
  let ?w1 = "time_sleep wt (w @ [Request (GET url)])"
  have first: "net (ncalls w) (GET url) = Response (rs 0)" "status_code (rs 0) = 429"
    using Suc.prems(1) [of 0] by simp_all
  have rest: "i < n \<Longrightarrow>
      net (ncalls ?w1 + i) (GET url) = Response (rs (Suc i)) \<and>
      status_code (rs (Suc i)) = 429" for i
    using Suc.prems(1) [of "Suc i"] by (simp add: time_sleep_def)
  have step: "retry_loop net url (Suc n) wt response w =
      retry_loop net url n (wt * 2) (Some (rs 0)) ?w1"
    using first by (simp add: http_def)
  have ih: "retry_loop net url n (wt * 2) (Some (rs 0)) ?w1 =
      (Inr (if n = 0 then the (Some (rs 0)) else rs (Suc (n - 1))),
       ?w1 @ backoff_trace url (wt * 2) n)"
    using Suc.IH [of ?w1 "\<lambda>i. rs (Suc i)" "Some (rs 0)" "wt * 2"] rest by simp
  show ?case
    unfolding step ih backoff_trace_Suc
    by (cases n) (simp_all add: time_sleep_def)
qed

lemma retry_loop_first_ok:
  assumes "j < n"
      and "\<And>i. i \<le> j \<Longrightarrow> net (ncalls w + i) (GET url) = Response (rs i)"
      and "\<And>i. i < j \<Longrightarrow> status_code (rs i) = 429"
      and "status_code (rs j) \<noteq> 429"
  shows "retry_loop net url n wt response w =
           (Inr (rs j), w @ backoff_trace url wt j @ [Request (GET url)])"
  using assms
proof (induction j arbitrary: n w wt response rs)
  case 0
  then obtain m where n: "n = Suc m"
    by (cases n) auto
  have "net (ncalls w) (GET url) = Response (rs 0)"
    using "0.prems"(2) [of 0] by simp
  with "0.prems"(4) show ?case
    by (simp add: n http_def)
next
  case (Suc j)
  then obtain m where n: "n = Suc m" and m: "j < m"
    by (cases n) auto
  let ?w1 = "time_sleep wt (w @ [Request (GET url)])"
  have first: "net (ncalls w) (GET url) = Response (rs 0)" "status_code (rs 0) = 429"
    using Suc.prems(2) [of 0] Suc.prems(3) [of 0] by simp_all
  have step: "retry_loop net url n wt response w =
      retry_loop net url m (wt * 2) (Some (rs 0)) ?w1"
    using first by (simp add: n http_def)
  have "retry_loop net url m (wt * 2) (Some (rs 0)) ?w1 =
      (Inr (rs (Suc j)), ?w1 @ backoff_trace url (wt * 2) j @ [Request (GET url)])"
  proof (rule Suc.IH [of m ?w1 "\<lambda>i. rs (Suc i)" "wt * 2" "Some (rs 0)"])
    show "j < m" by (rule m)
    show "net (ncalls ?w1 + i) (GET url) = Response (rs (Suc i))" if "i \<le> j" for i
      using Suc.prems(2) [of "Suc i"] that by (simp add: time_sleep_def)
    show "status_code (rs (Suc i)) = 429" if "i < j" for i
      using Suc.prems(3) [of "Suc i"] that by simp
    show "status_code (rs (Suc j)) \<noteq> 429"
      by (rule Suc.prems(4))
  qed
  then show ?case
    unfolding step backoff_trace_Suc by (simp add: time_sleep_def)
qed

text \<open>
  Claim C9. \<^verbatim>\<open>request_with_retries\<close> needs at least one attempt: with
  \<^verbatim>\<open>max_retries = 0\<close> (and with any \<^verbatim>\<open>max_retries\<close> below 1) the loop body never
  runs, no request is issued, the trace is unchanged and the final
  \<^verbatim>\<open>return response\<close> fails with the unbound-local error; with
  \<^verbatim>\<open>max_retries\<close> at least 1 that error never occurs.
\<close>

theorem request_with_retries_no_attempt:
  "request_with_retries net url 0 w = (Inl UnboundLocalError, w) \<and>
   (0 < max_retries \<longrightarrow>
      fst (request_with_retries net url max_retries w) \<noteq> Inl UnboundLocalError) \<and>
   (max_retries \<le> 0 \<longrightarrow>
      request_with_retries net url max_retries w = (Inl UnboundLocalError, w))"
proof -
  have bound: "fst (retry_loop net url n wt (Some r) v) \<noteq> Inl UnboundLocalError" for n wt r v
    by (induction n arbitrary: wt r v) (auto simp: http_def split: outcome.splits)
  have "fst (retry_loop net url (Suc n) 1 None w) \<noteq> Inl UnboundLocalError" for n
    using bound by (auto simp: http_def split: outcome.splits)
  moreover have "0 < max_retries \<Longrightarrow> \<exists>n. nat max_retries = Suc n"
    by (cases "nat max_retries") auto
  ultimately show ?thesis
    by (auto simp: request_with_retries_def)
qed

theorem request_with_retries_no_attempt_witness:
  "request_with_retries (\<lambda>i c. Raises ConnectionError) ''u'' 0 [] =
     (Inl UnboundLocalError, []) \<and>
   fst (request_with_retries (\<lambda>i c. Raises ConnectionError) ''u'' 1 []) \<noteq>
     Inl UnboundLocalError \<and>
   request_with_retries (\<lambda>i c. Raises ConnectionError) ''u'' (- 1) [] =
     (Inl UnboundLocalError, [])"
  using request_with_retries_no_attempt [of "\<lambda>i c. Raises ConnectionError" "''u''" "[]" 1]
    request_with_retries_no_attempt [of "\<lambda>i c. Raises ConnectionError" "''u''" "[]" "- 1"]
  by simp

text \<open>
  Claim C10. When each of the \<^verbatim>\<open>max_retries\<close> requests (at least one) is
  answered with status 429, the trace grows by \<^verbatim>\<open>max_retries\<close> rounds of a
  request followed by a sleep, of durations 1, 2, ..., 2 ^ (max_retries - 1):
  the last sleep follows the last request, and no request follows it. The
  last rate-limited response is returned.
\<close>

theorem request_with_retries_all_limited:
  assumes "0 < max_retries"
      and "\<And>i. i < nat max_retries \<Longrightarrow>
             net (ncalls w + i) (GET url) = Response (rs i) \<and> status_code (rs i) = 429"
  shows "request_with_retries net url max_retries w =
           (Inr (rs (nat max_retries - 1)),
            w @ concat (map (\<lambda>i. [Request (GET url), Sleep (2 ^ i)]) [0..<nat max_retries]))"
  using retry_loop_all_limited [of "nat max_retries" net w url rs None 1] assms
  by (simp add: request_with_retries_def backoff_trace_def)

theorem request_with_retries_all_limited_witness:
  "request_with_retries
     (\<lambda>i c. Response \<lparr>status_code = 429, citations = None, references = None\<rparr>) ''u'' 3 [] =
     (Inr \<lparr>status_code = 429, citations = None, references = None\<rparr>,
      [Request (GET ''u''), Sleep 1, Request (GET ''u''), Sleep 2,
       Request (GET ''u''), Sleep 4])"
  using request_with_retries_all_limited
    [of 3 "\<lambda>i c. Response \<lparr>status_code = 429, citations = None, references = None\<rparr>"
        "[]" "''u''" "\<lambda>i. \<lparr>status_code = 429, citations = None, references = None\<rparr>"]
  by (simp add: upt_conv_Cons)

text \<open>
  Claim C5. Let the requests of a call with at least one attempt be answered
  with the responses \<open>rs 0\<close>, \<open>rs 1\<close>, ... If \<open>rs j\<close> is the first response
  within \<^verbatim>\<open>max_retries\<close> attempts whose status is not 429, it is returned, after
  \<open>j\<close> sleeps of durations 1, 2, ..., 2 ^ (j - 1), each between two attempts.
  If there is none, the last response is returned. The witness is the
  response sequence 429, 429, 200: two sleeps, of 1 then 2, and the third
  response is returned.
\<close>

theorem request_with_retries_first_ok:
  assumes "0 < max_retries"
      and "\<And>i. i < nat max_retries \<Longrightarrow> net (ncalls w + i) (GET url) = Response (rs i)"
  shows "request_with_retries net url max_retries w =
           (case find (\<lambda>i. status_code (rs i) \<noteq> 429) [0..<nat max_retries] of
              Some j \<Rightarrow>
                (Inr (rs j),
                 w @ concat (map (\<lambda>i. [Request (GET url), Sleep (2 ^ i)]) [0..<j]) @
                   [Request (GET url)])
            | None \<Rightarrow>
                (Inr (rs (nat max_retries - 1)),
                 w @ concat (map (\<lambda>i. [Request (GET url), Sleep (2 ^ i)])
                               [0..<nat max_retries])))"
proof (cases "find (\<lambda>i. status_code (rs i) \<noteq> 429) [0..<nat max_retries]")
  case None
  then have "\<And>i. i < nat max_retries \<Longrightarrow> status_code (rs i) = 429"
    by (auto simp: find_None_iff)
  with assms have "retry_loop net url (nat max_retries) 1 None w =
      (Inr (if nat max_retries = 0 then the None else rs (nat max_retries - 1)),
       w @ backoff_trace url 1 (nat max_retries))"
    by (intro retry_loop_all_limited) auto
  with None assms(1) show ?thesis
    by (simp add: request_with_retries_def backoff_trace_def)
next
  case (Some j)
  then have j: "j < nat max_retries" "status_code (rs j) \<noteq> 429"
      and before: "\<And>i. i < j \<Longrightarrow> status_code (rs i) = 429"
    by (auto simp: find_Some_iff)
  have "retry_loop net url (nat max_retries) 1 None w =
      (Inr (rs j), w @ backoff_trace url 1 j @ [Request (GET url)])"
    using j before assms(2) by (intro retry_loop_first_ok) auto
  with Some show ?thesis
    by (simp add: request_with_retries_def backoff_trace_def)
qed

theorem request_with_retries_first_ok_witness:
  "request_with_retries
     (\<lambda>i c. Response \<lparr>status_code = (if i < 2 then 429 else 200),
                        citations = None, references = None\<rparr>)
     ''u'' 4 [] =
     (Inr \<lparr>status_code = 200, citations = None, references = None\<rparr>,
      [Request (GET ''u''), Sleep 1, Request (GET ''u''), Sleep 2, Request (GET ''u'')])"
  using request_with_retries_first_ok
    [of 4 "\<lambda>i c. Response \<lparr>status_code = (if i < 2 then 429 else 200),
                              citations = None, references = None\<rparr>"
        "[]" "''u''"
        "\<lambda>i. \<lparr>status_code = (if i < 2 then 429 else 200),
                 citations = None, references = None\<rparr>"]
  by (simp add: upt_conv_Cons)

section \<open>Properties of the neighbour fetcher\<close>

text \<open>
  Claim C6. Whatever response \<open>r\<close> the underlying request yields, the fetcher
  returns a pair of lists and raises nothing. The pair is two empty lists
  when the status is not 200, and when the body has neither field. A
  non-empty list comes only from a response of status 200 that has the
  corresponding field.
\<close>

theorem neighbours_empty_on_failure:
  assumes "request_with_retries net (detail_url paper_id) 4 w = (Inr r, w1)"
  shows "(status_code r \<noteq> 200 \<longrightarrow>
            get_citing_and_referenced_papers net paper_id w = (Inr ([], []), w1)) \<and>
         (citations r = None \<and> references r = None \<longrightarrow>
            get_citing_and_referenced_papers net paper_id w = (Inr ([], []), w1)) \<and>
         (\<exists>cs rs. get_citing_and_referenced_papers net paper_id w = (Inr (cs, rs), w1) \<and>
            (cs \<noteq> [] \<longrightarrow> status_code r = 200 \<and> citations r \<noteq> None) \<and>
            (rs \<noteq> [] \<longrightarrow> status_code r = 200 \<and> references r \<noteq> None))"
  using assms by (auto simp: get_citing_and_referenced_papers_def split: option.splits)

theorem neighbours_empty_on_failure_witness:
  "get_citing_and_referenced_papers
     (\<lambda>i c. Response \<lparr>status_code = 404, citations = Some [(''P2'', ''t'')],
                        references = None\<rparr>)
     ''P1'' [] = (Inr ([], []), [Request (GET (detail_url ''P1''))])"
proof -
  let ?net = "\<lambda>i c. Response \<lparr>status_code = 404, citations = Some [(''P2'', ''t'')],
                                  references = None\<rparr>"
  have "request_with_retries ?net (detail_url ''P1'') 4 [] =
      (Inr \<lparr>status_code = 404, citations = Some [(''P2'', ''t'')], references = None\<rparr>,
       [Request (GET (detail_url ''P1''))])"
    by (simp add: request_with_retries_def http_def eval_nat_numeral)
  from neighbours_empty_on_failure [OF this] show ?thesis
    by simp
qed

section \<open>Properties of the match check\<close>

lemma check_editor_eq:
  "check_editor editor ids papers fnd =
     (if filter (\<lambda>p. pid p \<in> ids) papers = [] then fnd
      else fnd(editor \<mapsto> papers_of fnd editor @ filter (\<lambda>p. pid p \<in> ids) papers))"
  by (induction papers arbitrary: fnd) (auto simp: papers_of_def)

lemma check_papers_other:
  "editor \<notin> fst ` set roster \<Longrightarrow> check_papers papers roster fnd editor = fnd editor"
  by (induction roster arbitrary: fnd) (auto simp: check_editor_eq)

lemma check_papers_entry:
  assumes "distinct (map fst roster)"
  shows "check_papers papers roster fnd editor =
     (case map_of roster editor of
        None \<Rightarrow> fnd editor
      | Some ids \<Rightarrow>
          if filter (\<lambda>p. pid p \<in> set ids) papers = [] then fnd editor
          else Some (papers_of fnd editor @ filter (\<lambda>p. pid p \<in> set ids) papers))"
  using assms
proof (induction roster arbitrary: fnd)
  case Nil
  then show ?case by simp
next
  case (Cons entry roster)
  obtain e ids where entry: "entry = (e, ids)"
    by (cases entry)
  show ?case
  proof (cases "editor = e")
    case True
    with Cons.prems entry have "editor \<notin> fst ` set roster"
      by auto
    then show ?thesis
      using True entry by (simp add: check_papers_other check_editor_eq)
  next
    case False
    then have "papers_of (fnd(e \<mapsto> ps)) editor = papers_of fnd editor" for ps
      by (simp add: papers_of_def)
    with False Cons entry show ?thesis
      by (simp add: check_editor_eq split: option.splits)
  qed
qed

text \<open>
  Claim C4. One call of \<^verbatim>\<open>check_papers\<close> on a roster (a dictionary: its keys
  are distinct) changes the findings of an editor only by appending, in batch
  order, the papers of the batch whose id the editor owns, once per
  occurrence in the batch; the entry is created when absent. The findings of
  an editor who matches no paper of the batch, or who is not in the roster,
  are as before, and no recorded paper is removed.
\<close>

theorem check_papers_appends:
  assumes "distinct (map fst roster)"
  shows "check_papers papers roster fnd editor =
     (case map_of roster editor of
        None \<Rightarrow> fnd editor
      | Some ids \<Rightarrow>
          if filter (\<lambda>p. pid p \<in> set ids) papers = [] then fnd editor
          else Some (papers_of fnd editor @ filter (\<lambda>p. pid p \<in> set ids) papers))"
  using assms by (rule check_papers_entry)

theorem check_papers_appends_witness:
  "check_papers [new_paper ''X'' ''t'', new_paper ''Y'' ''u'']
     [(''E'', [''X'']), (''F'', [''Z''])] [''E'' \<mapsto> [new_paper ''W'' ''v'']] ''E'' =
   Some [new_paper ''W'' ''v'', new_paper ''X'' ''t'']"
  using check_papers_appends [of "[(''E'', [''X'']), (''F'', [''Z''])]"
     "[new_paper ''X'' ''t'', new_paper ''Y'' ''u'']" "[''E'' \<mapsto> [new_paper ''W'' ''v'']]" "''E''"]
  by (simp add: papers_of_def new_paper_def)

text \<open>
  Claim C3, as stated, fails: nothing deduplicates the findings, so a second
  call with the same batch appends the matching paper a second time.
\<close>

theorem check_papers_twice_counterexample:
  "count_list
     (papers_of
        (check_papers [new_paper ''X'' ''t''] [(''E'', [''X''])]
           (check_papers [new_paper ''X'' ''t''] [(''E'', [''X''])] Map.empty)) ''E'')
     (new_paper ''X'' ''t'') = 2"
  by (simp add: papers_of_def new_paper_def)

lemma count_list_filter: "count_list (filter P xs) p = (if P p then count_list xs p else 0)"
  by (induction xs) auto

lemma count_list_append: "count_list (xs @ ys) p = count_list xs p + count_list ys p"
  by (induction xs) auto

text \<open>
  Claim C3, amended. Let editor \<open>E\<close> own the id of paper \<open>p\<close>. After \<open>n\<close> calls
  of \<^verbatim>\<open>check_papers\<close> with the same batch, the findings of \<open>E\<close> contain \<open>p\<close> as
  often as before plus \<open>n\<close> times its number of occurrences in the batch: every
  call appends it again.
\<close>

theorem check_papers_repeated:
  assumes "distinct (map fst roster)"
      and "map_of roster editor = Some ids"
      and "pid p \<in> set ids"
  shows "count_list (papers_of ((check_papers papers roster ^^ n) fnd) editor) p =
           count_list (papers_of fnd editor) p + n * count_list papers p"
proof (induction n)
  case 0
  show ?case by simp
next
  case (Suc n)
  have "count_list (papers_of (check_papers papers roster g) editor) p =
        count_list (papers_of g editor) p + count_list papers p" for g
    using assms
    by (auto simp: check_papers_entry papers_of_def count_list_filter count_list_append
        filter_empty_conv count_list_0_iff split: option.splits)
  with Suc show ?case
    by simp
qed

theorem check_papers_repeated_witness:
  "count_list
     (papers_of ((check_papers [new_paper ''X'' ''t''] [(''E'', [''X''])] ^^ 3) Map.empty) ''E'')
     (new_paper ''X'' ''t'') = 3"
  using check_papers_repeated [where roster = "[(''E'', [''X''])]" and editor = "''E''"
     and ids = "[''X'']" and p = "new_paper ''X'' ''t''" and papers = "[new_paper ''X'' ''t'']"
     and n = 3 and fnd = Map.empty]
  by (simp add: papers_of_def new_paper_def)

section \<open>Properties of the batch lookup\<close>

lemma slept_append [simp]: "slept (u @ v) = slept u + slept v"
  by (induction u rule: slept.induct) simp_all

text \<open>
  Claim C8, as stated, fails: the loop compares the doubled \<^verbatim>\<open>wait_time\<close>, not
  the time slept so far, with 10. When every response is rate-limited it
  sleeps 1, 2, 4 and 8 time units, 15 in all, before it gives up.
\<close>

theorem batch_lookup_sleeps_counterexample:
  "batch_lookup
     (\<lambda>i c. Response \<lparr>status_code = 429, citations = None, references = None\<rparr>) [''a''] [] =
     Some (Inr \<lparr>status_code = 429, citations = None, references = None\<rparr>,
       [Request (POST ''title,paperId'' [''a'']), Sleep 1, Request (POST ''title'' [''a'']),
        Sleep 2, Request (POST ''title'' [''a'']), Sleep 4, Request (POST ''title'' [''a'']),
        Sleep 8, Request (POST ''title'' [''a''])]) \<and>
   slept [Request (POST ''title,paperId'' [''a'']), Sleep 1, Request (POST ''title'' [''a'']),
        Sleep 2, Request (POST ''title'' [''a'']), Sleep 4, Request (POST ''title'' [''a'']),
        Sleep 8, Request (POST ''title'' [''a''])] = 15"
  by (simp add: batch_lookup_def batch_retry.simps http_def time_sleep_def)

lemma batch_retry_last:
  assumes "10 < wt * 2"
  shows "\<exists>res u. batch_retry net ids wt r w = Some (res, w @ u) \<and> slept u \<le> wt \<and> ncalls u \<le> 1"
  using assms
  by (subst batch_retry.simps) (auto simp: http_def time_sleep_def split: outcome.splits)

lemma batch_retry_step:
  assumes later: "\<And>r1 v. \<exists>res u. batch_retry net ids (wt * 2) r1 v = Some (res, v @ u) \<and>
                     slept u \<le> a \<and> ncalls u \<le> b"
  shows "\<exists>res u. batch_retry net ids wt r w = Some (res, w @ u) \<and>
           slept u \<le> wt + a \<and> ncalls u \<le> Suc b"
proof (cases "status_code r = 429")
  case False
  then show ?thesis
    by (subst batch_retry.simps) simp
next
  case limited: True
  let ?w1 = "w @ [Sleep wt, Request (POST ''title'' ids)]"
  show ?thesis
  proof (cases "net (ncalls w) (POST ''title'' ids)")
    case (Raises e)
    with limited show ?thesis
      by (subst batch_retry.simps) (simp add: http_def time_sleep_def)
  next
    case (Response r1)
    show ?thesis
    proof (cases "10 < wt * 2")
      case True
      with limited Response show ?thesis
        by (subst batch_retry.simps) (simp add: http_def time_sleep_def)
    next
      case False
      obtain res u where u: "batch_retry net ids (wt * 2) r1 ?w1 = Some (res, ?w1 @ u)"
          "slept u \<le> a" "ncalls u \<le> b"
        using later [of r1 ?w1] by blast
      have "batch_retry net ids wt r w = batch_retry net ids (wt * 2) r1 ?w1"
        using limited Response False
        by (subst batch_retry.simps) (simp add: http_def time_sleep_def)
      with u have "batch_retry net ids wt r w =
          Some (res, w @ ([Sleep wt, Request (POST ''title'' ids)] @ u))"
        by simp
      moreover have "slept ([Sleep wt, Request (POST ''title'' ids)] @ u) \<le> wt + a"
          "ncalls ([Sleep wt, Request (POST ''title'' ids)] @ u) \<le> Suc b"
        using u(2,3) by simp_all
      ultimately show ?thesis
        by blast
    qed
  qed
qed

lemma batch_retry_from_1:
  "\<exists>res u. batch_retry net ids 1 r w = Some (res, w @ u) \<and> slept u \<le> 15 \<and> ncalls u \<le> 4"
proof -
  have w8: "\<exists>res u. batch_retry net ids 8 r w = Some (res, w @ u) \<and> slept u \<le> 8 \<and> ncalls u \<le> 1"
    for r w
    by (rule batch_retry_last) simp
  have w4: "\<exists>res u. batch_retry net ids 4 r w = Some (res, w @ u) \<and>
      slept u \<le> 4 + 8 \<and> ncalls u \<le> Suc 1" for r w
    by (rule batch_retry_step) (use w8 in simp)
  have w2: "\<exists>res u. batch_retry net ids 2 r w = Some (res, w @ u) \<and>
      slept u \<le> 2 + (4 + 8) \<and> ncalls u \<le> Suc (Suc 1)" for r w
    by (rule batch_retry_step) (use w4 in simp)
  have "\<exists>res u. batch_retry net ids 1 r w = Some (res, w @ u) \<and>
      slept u \<le> 1 + (2 + (4 + 8)) \<and> ncalls u \<le> Suc (Suc (Suc 1))"
    by (rule batch_retry_step) (use w2 in simp)
  then show ?thesis
    by (simp add: eval_nat_numeral)
qed

text \<open>
  Claim C8, amended. The batch lookup always returns, whatever the responses
  are; retrying is abandoned once the doubled \<^verbatim>\<open>wait_time\<close> exceeds 10, that is
  after at most four sleeps (of 1, 2, 4 and 8): the time slept in one lookup
  never exceeds 15 time units, and at most five requests are sent.
\<close>

theorem batch_lookup_bounded:
  "\<exists>res u. batch_lookup net arxiv_ids w = Some (res, w @ u) \<and> slept u \<le> 15 \<and> ncalls u \<le> 5"
proof (cases "net (ncalls w) (POST ''title,paperId'' arxiv_ids)")
  case (Raises e)
  then show ?thesis
    by (simp add: batch_lookup_def http_def)
next
  case (Response r)
  let ?w1 = "w @ [Request (POST ''title,paperId'' arxiv_ids)]"
  obtain res u where u: "batch_retry net arxiv_ids 1 r ?w1 = Some (res, ?w1 @ u)"
      "slept u \<le> 15" "ncalls u \<le> 4"
    using batch_retry_from_1 [of net arxiv_ids r ?w1] by blast
  then have "batch_lookup net arxiv_ids w =
      Some (res, w @ ([Request (POST ''title,paperId'' arxiv_ids)] @ u))"
    using Response by (simp add: batch_lookup_def http_def)
  moreover have "slept ([Request (POST ''title,paperId'' arxiv_ids)] @ u) \<le> 15"
      "ncalls ([Request (POST ''title,paperId'' arxiv_ids)] @ u) \<le> 5"
    using u(2,3) by simp_all
  ultimately show ?thesis
    by blast
qed

section \<open>Properties of the traversal\<close>

lemma get_path_depth_cited [simp]: "get_path_depth (cited c p) = Suc (get_path_depth p)"
  by (cases c) simp

lemma get_path_depth_referenced_by [simp]:
  "cited_paper r = None \<Longrightarrow> get_path_depth (referenced_by r p) = Suc (get_path_depth p)"
  by (cases r) simp

lemma pid_cited [simp]: "pid (cited c p) = pid c"
  by (cases c) simp

lemma pid_referenced_by [simp]: "pid (referenced_by r p) = pid r"
  by (cases r) simp

lemma retry_loop_trace:
  "retry_loop net url n wt response w = (res, w1) \<Longrightarrow>
     \<exists>u. w1 = w @ u \<and> (\<forall>c. Request c \<in> set u \<longrightarrow> c = GET url)"
proof (induction n arbitrary: wt response w)
  case 0
  then show ?case by (auto split: option.splits)
next
  case (Suc n)
  show ?case
  proof (cases "net (ncalls w) (GET url)")
    case (Raises e)
    with Suc.prems show ?thesis
      by (auto simp: http_def)
  next
    case (Response r)
    show ?thesis
    proof (cases "status_code r = 429")
      case False
      with Response Suc.prems show ?thesis
        by (auto simp: http_def)
    next
      case True
      with Response Suc.prems
      have "retry_loop net url n (wt * 2) (Some r) (w @ [Request (GET url), Sleep wt]) = (res, w1)"
        by (simp add: http_def time_sleep_def)
      from Suc.IH [OF this] obtain u where
        "w1 = (w @ [Request (GET url), Sleep wt]) @ u" "\<forall>c. Request c \<in> set u \<longrightarrow> c = GET url"
        by blast
      then have "w1 = w @ ([Request (GET url), Sleep wt] @ u) \<and>
          (\<forall>c. Request c \<in> set ([Request (GET url), Sleep wt] @ u) \<longrightarrow> c = GET url)"
        by auto
      then show ?thesis
        by blast
    qed
  qed
qed

lemma fetch_unparented:
  assumes "get_citing_and_referenced_papers net paper_id w = (Inr (cs, rs), w1)"
      and "p \<in> set cs \<union> set rs"
  shows "cited_paper p = None \<and> referenced_by_paper p = None"
  using assms
  by (cases "request_with_retries net (detail_url paper_id) 4 w")
     (auto simp: get_citing_and_referenced_papers_def new_paper_def
           split: sum.splits if_splits)

lemma add_citing_acc:
  "add_citing paper cs (found, new) = (found', new') \<Longrightarrow>
     \<exists>ext. new' = new @ ext \<and> found' = found \<union> pid ` set ext \<and>
       distinct (map pid ext) \<and> pid ` set ext \<inter> found = {} \<and>
       (\<forall>q\<in>set ext. \<exists>c\<in>set cs. q = cited c paper)"
proof (induction cs arbitrary: found new)
  case Nil
  then show ?case by simp
next
  case (Cons c cs)
  show ?case
  proof (cases "pid c \<in> found")
    case True
    with Cons.prems have "add_citing paper cs (found, new) = (found', new')"
      by simp
    from Cons.IH [OF this] show ?thesis
      by auto
  next
    case False
    with Cons.prems have
      "add_citing paper cs (insert (pid c) found, new @ [cited c paper]) = (found', new')"
      by simp
    from Cons.IH [OF this] obtain ext where ext:
      "new' = (new @ [cited c paper]) @ ext" "found' = insert (pid c) found \<union> pid ` set ext"
      "distinct (map pid ext)" "pid ` set ext \<inter> insert (pid c) found = {}"
      "\<forall>q\<in>set ext. \<exists>c\<in>set cs. q = cited c paper"
      by blast
    let ?e = "cited c paper # ext"
    have "new' = new @ ?e" "found' = found \<union> pid ` set ?e" "distinct (map pid ?e)"
        "pid ` set ?e \<inter> found = {}" "\<forall>q\<in>set ?e. \<exists>c'\<in>set (c # cs). q = cited c' paper"
      using ext False by auto
    then show ?thesis
      by blast
  qed
qed

lemma add_referenced_acc:
  "add_referenced paper rs (found, new) = (found', new') \<Longrightarrow>
     \<exists>ext. new' = new @ ext \<and> found' = found \<union> pid ` set ext \<and>
       distinct (map pid ext) \<and> pid ` set ext \<inter> found = {} \<and>
       (\<forall>q\<in>set ext. \<exists>r\<in>set rs. q = referenced_by r paper)"
proof (induction rs arbitrary: found new)
  case Nil
  then show ?case by simp
next
  case (Cons r rs)
  show ?case
  proof (cases "pid r \<in> found")
    case True
    with Cons.prems have "add_referenced paper rs (found, new) = (found', new')"
      by simp
    from Cons.IH [OF this] show ?thesis
      by auto
  next
    case False
    with Cons.prems have
      "add_referenced paper rs (insert (pid r) found, new @ [referenced_by r paper]) =
         (found', new')"
      by simp
    from Cons.IH [OF this] obtain ext where ext:
      "new' = (new @ [referenced_by r paper]) @ ext"
      "found' = insert (pid r) found \<union> pid ` set ext"
      "distinct (map pid ext)" "pid ` set ext \<inter> insert (pid r) found = {}"
      "\<forall>q\<in>set ext. \<exists>r\<in>set rs. q = referenced_by r paper"
      by blast
    let ?e = "referenced_by r paper # ext"
    have "new' = new @ ?e" "found' = found \<union> pid ` set ?e" "distinct (map pid ?e)"
        "pid ` set ?e \<inter> found = {}"
        "\<forall>q\<in>set ?e. \<exists>r'\<in>set (r # rs). q = referenced_by r' paper"
      using ext False by auto
    then show ?thesis
      by blast
  qed
qed


lemma expand_facts:
  assumes fetch: "get_citing_and_referenced_papers net (pid paper) w = (Inr (cs, rs), w1)"
      and add: "add_referenced paper rs (add_citing paper cs (found, [])) = (found', new)"
  shows "found' = found \<union> pid ` set new"
    and "distinct (map pid new)"
    and "pid ` set new \<inter> found = {}"
    and "\<forall>q\<in>set new. get_path_depth q = Suc (get_path_depth paper)"
    and "\<forall>q\<in>set new. (cited_paper q = Some paper \<and> referenced_by_paper q = None) \<or>
                        (cited_paper q = None \<and> referenced_by_paper q = Some paper)"
proof -
  obtain f1 n1 where c: "add_citing paper cs (found, []) = (f1, n1)"
    by (cases "add_citing paper cs (found, [])")
  from add_citing_acc [OF c] have n1: "f1 = found \<union> pid ` set n1" "distinct (map pid n1)"
      "pid ` set n1 \<inter> found = {}" "\<forall>q\<in>set n1. \<exists>c\<in>set cs. q = cited c paper"
    by auto
  from add c have "add_referenced paper rs (f1, n1) = (found', new)"
    by simp
  from add_referenced_acc [OF this] obtain ext where ext: "new = n1 @ ext"
      "found' = f1 \<union> pid ` set ext" "distinct (map pid ext)" "pid ` set ext \<inter> f1 = {}"
      "\<forall>q\<in>set ext. \<exists>r\<in>set rs. q = referenced_by r paper"
    by blast
  show "found' = found \<union> pid ` set new"
    using n1(1) ext(1,2) by auto
  show "distinct (map pid new)"
    using n1(1,2) ext(1,3,4) by auto
  show "pid ` set new \<inter> found = {}"
    using n1(1,3) ext(1,4) by auto
  have fresh: "cited_paper p = None \<and> referenced_by_paper p = None" if "p \<in> set cs \<union> set rs" for p
    using fetch_unparented [OF fetch that] .
  show "\<forall>q\<in>set new. get_path_depth q = Suc (get_path_depth paper)"
  proof
    fix q assume "q \<in> set new"
    then consider c where "c \<in> set cs" "q = cited c paper"
      | r where "r \<in> set rs" "q = referenced_by r paper"
      using n1(4) ext(1,5) by auto
    then show "get_path_depth q = Suc (get_path_depth paper)"
    proof cases
      case 1
      then show ?thesis by simp
    next
      case 2
      with fresh [of r] show ?thesis by simp
    qed
  qed
  show "\<forall>q\<in>set new. (cited_paper q = Some paper \<and> referenced_by_paper q = None) \<or>
                        (cited_paper q = None \<and> referenced_by_paper q = Some paper)"
  proof
    fix q assume "q \<in> set new"
    then consider c where "c \<in> set cs" "q = cited c paper"
      | r where "r \<in> set rs" "q = referenced_by r paper"
      using n1(4) ext(1,5) by auto
    then show "(cited_paper q = Some paper \<and> referenced_by_paper q = None) \<or>
               (cited_paper q = None \<and> referenced_by_paper q = Some paper)"
    proof cases
      case 1
      with fresh [of c] show ?thesis by (cases c) simp
    next
      case 2
      with fresh [of r] show ?thesis by (cases r) simp
    qed
  qed
qed

lemma bfs_loop_Nil:
  "fringe st = [] \<Longrightarrow> bfs_loop net depth roster st w = Some (Inr st, w)"
  by (subst bfs_loop.simps) simp

lemma bfs_loop_cutoff:
  "fringe st = paper # rest \<Longrightarrow> depth < int (get_path_depth paper) \<Longrightarrow>
     bfs_loop net depth roster st w = Some (Inr (st\<lparr>fringe := rest\<rparr>), w)"
  by (subst bfs_loop.simps) simp

lemma bfs_loop_raise:
  "fringe st = paper # rest \<Longrightarrow> int (get_path_depth paper) \<le> depth \<Longrightarrow>
   get_citing_and_referenced_papers net (pid paper) w = (Inl e, w1) \<Longrightarrow>
     bfs_loop net depth roster st w =
       Some (if e = IO KeyboardInterrupt then Inr (st\<lparr>fringe := rest\<rparr>) else Inl e, w1)"
  by (subst bfs_loop.simps) simp

lemma bfs_loop_expand:
  "fringe st = paper # rest \<Longrightarrow> int (get_path_depth paper) \<le> depth \<Longrightarrow>
   get_citing_and_referenced_papers net (pid paper) w = (Inr (cs, rs), w1) \<Longrightarrow>
   add_referenced paper rs (add_citing paper cs (found_ids st, [])) = (found, new) \<Longrightarrow>
     bfs_loop net depth roster st w =
       bfs_loop net depth roster
         \<lparr>fringe = rest @ new, found_ids = found,
          findings = check_papers new roster (findings st)\<rparr> w1"
  by (subst bfs_loop.simps) simp

lemma bfs_loop_induct [case_names step]:
  assumes step: "\<And>st w.
    (\<And>paper rest cs rs w1 found new.
        fringe st = paper # rest \<Longrightarrow> int (get_path_depth paper) \<le> depth \<Longrightarrow>
        get_citing_and_referenced_papers net (pid paper) w = (Inr (cs, rs), w1) \<Longrightarrow>
        add_referenced paper rs (add_citing paper cs (found_ids st, [])) = (found, new) \<Longrightarrow>
        P \<lparr>fringe = rest @ new, found_ids = found,
           findings = check_papers new roster (findings st)\<rparr> w1) \<Longrightarrow>
    P st w"
  shows "P st w"
proof (induction "mset (map (\<lambda>p. nat (depth + 1 - int (get_path_depth p))) (fringe st))"
    arbitrary: st w rule: less_induct)
  case (less st w)
  let ?m = "\<lambda>p. nat (depth + 1 - int (get_path_depth p))"
  show ?case
  proof (rule step)
    fix paper rest cs rs w1 found new
    assume fr: "fringe st = paper # rest"
      and le: "int (get_path_depth paper) \<le> depth"
      and fetch: "get_citing_and_referenced_papers net (pid paper) w = (Inr (cs, rs), w1)"
      and add: "add_referenced paper rs (add_citing paper cs (found_ids st, [])) = (found, new)"
    let ?st' = "\<lparr>fringe = rest @ new, found_ids = found,
                 findings = check_papers new roster (findings st)\<rparr>"
    have deeper: "\<forall>q\<in>set new. get_path_depth q = Suc (get_path_depth paper)"
      using expand_facts(4) [OF fetch add] .
    have "\<forall>k\<in>#mset (map ?m new). \<exists>j\<in>#{#?m paper#}. k < j"
      using deeper le by auto
    then have "mset (map ?m rest) + mset (map ?m new) < mset (map ?m rest) + {#?m paper#}"
      unfolding less_multiset_def by (intro one_step_implies_multp) simp_all
    then have "mset (map ?m (fringe ?st')) < mset (map ?m (fringe st))"
      using fr by simp
    then show "P ?st' w1"
      by (rule less.hyps)
  qed
qed




section \<open>The traversal with cutoff 0\<close>

lemma check_editor_mem:
  "p \<in> set (papers_of (check_editor e ids batch fnd) e') \<Longrightarrow>
     p \<in> set (papers_of fnd e') \<or> p \<in> set batch"
  by (auto simp: check_editor_eq papers_of_def split: if_splits option.splits)

lemma check_papers_mem:
  "p \<in> set (papers_of (check_papers batch roster fnd) e) \<Longrightarrow>
     p \<in> set (papers_of fnd e) \<or> p \<in> set batch"
proof (induction roster arbitrary: fnd)
  case Nil
  then show ?case by simp
next
  case (Cons entry roster)
  obtain e' ids where "entry = (e', ids)"
    by (cases entry)
  with Cons.prems Cons.IH [of "check_editor e' (set ids) batch fnd"] show ?case
    by (auto dest: check_editor_mem)
qed

lemma retry_loop_first:
  assumes "retry_loop net url (Suc n) wt response w = (res, w1)"
  shows "\<exists>u. w1 = w @ Request (GET url) # u \<and> (\<forall>c. Request c \<in> set u \<longrightarrow> c = GET url)"
proof (cases "net (ncalls w) (GET url)")
  case (Raises e)
  with assms show ?thesis
    by (auto simp: http_def)
next
  case (Response r)
  show ?thesis
  proof (cases "status_code r = 429")
    case False
    with Response assms show ?thesis
      by (auto simp: http_def)
  next
    case True
    with Response assms
    have "retry_loop net url n (wt * 2) (Some r) (w @ [Request (GET url), Sleep wt]) = (res, w1)"
      by (simp add: http_def time_sleep_def)
    from retry_loop_trace [OF this] obtain u where
      "w1 = (w @ [Request (GET url), Sleep wt]) @ u" "\<forall>c. Request c \<in> set u \<longrightarrow> c = GET url"
      by blast
    then have "w1 = w @ Request (GET url) # (Sleep wt # u) \<and>
        (\<forall>c. Request c \<in> set (Sleep wt # u) \<longrightarrow> c = GET url)"
      by auto
    then show ?thesis
      by blast
  qed
qed

lemma fetch_trace_first:
  assumes "get_citing_and_referenced_papers net paper_id w = (res, w1)"
  shows "\<exists>u. w1 = w @ Request (GET (detail_url paper_id)) # u \<and>
           (\<forall>c. Request c \<in> set u \<longrightarrow> c = GET (detail_url paper_id))"
proof -
  obtain res0 where "request_with_retries net (detail_url paper_id) 4 w = (res0, w1)"
    using assms
    by (cases "request_with_retries net (detail_url paper_id) 4 w")
       (auto simp: get_citing_and_referenced_papers_def split: sum.splits if_splits)
  then have "retry_loop net (detail_url paper_id) (Suc 3) 1 None w = (res0, w1)"
    by (simp add: request_with_retries_def eval_nat_numeral)
  then show ?thesis
    by (rule retry_loop_first)
qed

lemma get_path_depth_parent: "parent p = Some s \<Longrightarrow> get_path_depth p = Suc (get_path_depth s)"
  by (cases p rule: get_path_depth.cases) (auto simp: parent_def)

lemma bfs_loop_depth_zero:
  assumes seeds: "\<forall>s\<in>set papers. get_path_depth s = 0"
  shows "(\<forall>p\<in>set (fringe st). near_seed papers p) \<longrightarrow>
         (\<forall>e. \<forall>p\<in>set (papers_of (findings st) e). near_seed papers p) \<longrightarrow>
         (\<exists>res u. bfs_loop net 0 roster st w = Some (res, w @ u) \<and>
            (\<forall>c. Request c \<in> set u \<longrightarrow> (\<exists>s\<in>set papers. c = GET (detail_url (pid s)))) \<and>
            (\<forall>s rest. fringe st = s # rest \<and> get_path_depth s = 0 \<longrightarrow>
               (\<exists>u'. u = Request (GET (detail_url (pid s))) # u')) \<and>
            (\<forall>st'. res = Inr st' \<longrightarrow>
               (\<forall>e. \<forall>p\<in>set (papers_of (findings st') e). near_seed papers p)))"
proof (induction st w rule: bfs_loop_induct [where net = net and depth = 0 and roster = roster])
  case (step st w)
  show ?case
  proof (intro impI)
    assume fr: "\<forall>p\<in>set (fringe st). near_seed papers p"
      and fd: "\<forall>e. \<forall>p\<in>set (papers_of (findings st) e). near_seed papers p"
    show "\<exists>res u. bfs_loop net 0 roster st w = Some (res, w @ u) \<and>
            (\<forall>c. Request c \<in> set u \<longrightarrow> (\<exists>s\<in>set papers. c = GET (detail_url (pid s)))) \<and>
            (\<forall>s rest. fringe st = s # rest \<and> get_path_depth s = 0 \<longrightarrow>
               (\<exists>u'. u = Request (GET (detail_url (pid s))) # u')) \<and>
            (\<forall>st'. res = Inr st' \<longrightarrow>
               (\<forall>e. \<forall>p\<in>set (papers_of (findings st') e). near_seed papers p))"
    proof (cases "fringe st")
      case Nil
      then have "bfs_loop net 0 roster st w = Some (Inr st, w @ [])"
        by (simp add: bfs_loop_Nil)
      with Nil fd show ?thesis
        by (intro exI [of _ "Inr st"] exI [of _ "[]"]) simp
    next
      case (Cons paper rest)
      show ?thesis
      proof (cases "0 < get_path_depth paper")
        case True
        with Cons have "bfs_loop net 0 roster st w = Some (Inr (st\<lparr>fringe := rest\<rparr>), w @ [])"
          by (simp add: bfs_loop_cutoff)
        with Cons True fd show ?thesis
          by (intro exI [of _ "Inr (st\<lparr>fringe := rest\<rparr>)"] exI [of _ "[]"]) auto
      next
        case False
        then have d0: "get_path_depth paper = 0" and le: "int (get_path_depth paper) \<le> 0"
          by simp_all
        have seed: "paper \<in> set papers"
          using fr Cons d0 by (auto simp: near_seed_def dest: get_path_depth_parent)
        obtain r w1 where fetch: "get_citing_and_referenced_papers net (pid paper) w = (r, w1)"
          by (cases "get_citing_and_referenced_papers net (pid paper) w")
        from fetch_trace_first [OF fetch] obtain u1 where
          u1: "w1 = w @ Request (GET (detail_url (pid paper))) # u1"
              "\<forall>c. Request c \<in> set u1 \<longrightarrow> c = GET (detail_url (pid paper))"
          by blast
        let ?u = "Request (GET (detail_url (pid paper))) # u1"
        have reqs: "\<forall>c. Request c \<in> set ?u \<longrightarrow> (\<exists>s\<in>set papers. c = GET (detail_url (pid s)))"
          using u1(2) seed by auto
        show ?thesis
        proof (cases r)
          case (Inl e)
          let ?res = "if e = IO KeyboardInterrupt then Inr (st\<lparr>fringe := rest\<rparr>) else Inl e"
          have "bfs_loop net 0 roster st w = Some (?res, w @ ?u)"
            using bfs_loop_raise [OF Cons le] fetch Inl u1(1) by simp
          with reqs Cons fd show ?thesis
            by (intro exI [of _ ?res] exI [of _ ?u]) auto
        next
          case (Inr nb)
          obtain cs rs where nb: "nb = (cs, rs)"
            by (cases nb)
          obtain found new where
            add: "add_referenced paper rs (add_citing paper cs (found_ids st, [])) = (found, new)"
            by (cases "add_referenced paper rs (add_citing paper cs (found_ids st, []))")
          from fetch Inr nb
          have f: "get_citing_and_referenced_papers net (pid paper) w = (Inr (cs, rs), w1)"
            by simp
          let ?st' = "\<lparr>fringe = rest @ new, found_ids = found,
                       findings = check_papers new roster (findings st)\<rparr>"
          have new_near: "\<forall>q\<in>set new. near_seed papers q"
            using expand_facts(5) [OF f add] seed by (auto simp: near_seed_def parent_def)
          then have fr': "\<forall>p\<in>set (fringe ?st'). near_seed papers p"
            using fr Cons by auto
          have fd': "\<forall>e. \<forall>p\<in>set (papers_of (findings ?st') e). near_seed papers p"
            using fd new_near by (auto dest: check_papers_mem)
          from step [OF Cons le f add] fr' fd' obtain res u2 where
            run: "bfs_loop net 0 roster ?st' w1 = Some (res, w1 @ u2)"
            and r2: "\<forall>c. Request c \<in> set u2 \<longrightarrow> (\<exists>s\<in>set papers. c = GET (detail_url (pid s)))"
            and f2: "\<forall>st'. res = Inr st' \<longrightarrow>
                       (\<forall>e. \<forall>p\<in>set (papers_of (findings st') e). near_seed papers p)"
            by blast
          have "bfs_loop net 0 roster st w = Some (res, w @ (?u @ u2))"
            using bfs_loop_expand [OF Cons le f add] run u1(1) by simp
          moreover have "\<forall>c. Request c \<in> set (?u @ u2) \<longrightarrow>
              (\<exists>s\<in>set papers. c = GET (detail_url (pid s)))"
            using reqs r2 by auto
          moreover have "\<forall>s rest'. fringe st = s # rest' \<and> get_path_depth s = 0 \<longrightarrow>
              (\<exists>u'. ?u @ u2 = Request (GET (detail_url (pid s))) # u')"
            using Cons by simp
          ultimately show ?thesis
            using f2 by (intro exI [of _ res] exI [of _ "?u @ u2"]) blast
        qed
      qed
    qed
  qed
qed

text \<open>
  With cutoff 0 the loop over a fringe of seeds followed by deeper papers is
  the pass over the seeds: the seeds leave the queue first, and the first
  deeper paper ends the loop.
\<close>

lemma bfs_loop_seed_pass:
  assumes "\<forall>s\<in>set seeds. get_path_depth s = 0"
      and "\<forall>q\<in>set news. 0 < get_path_depth q"
  shows "bfs_loop net 0 roster
           \<lparr>fringe = seeds @ news, found_ids = found, findings = fnd\<rparr> w =
         Some (seed_pass net roster seeds news found fnd w)"
  using assms
proof (induction seeds arbitrary: news found fnd w)
  case Nil
  show ?case
  proof (cases news)
    case Nil
    then show ?thesis
      by (simp add: bfs_loop_Nil)
  next
    case (Cons q qs)
    with Nil.prems have "0 < int (get_path_depth q)"
      by simp
    with Cons show ?thesis
      by (simp add: bfs_loop_cutoff [where paper = q and rest = qs])
  qed
next
  case (Cons s seeds)
  let ?st = "\<lparr>fringe = (s # seeds) @ news, found_ids = found, findings = fnd\<rparr>"
  have fr: "fringe ?st = s # (seeds @ news)"
    by simp
  have le: "int (get_path_depth s) \<le> 0"
    using Cons.prems(1) by simp
  obtain r w1 where fetch: "get_citing_and_referenced_papers net (pid s) w = (r, w1)"
    by (cases "get_citing_and_referenced_papers net (pid s) w")
  show ?case
  proof (cases r)
    case (Inl e)
    with bfs_loop_raise [OF fr le, of net w e w1 roster] fetch show ?thesis
      by simp
  next
    case (Inr nb)
    obtain cs rs where nb: "nb = (cs, rs)"
      by (cases nb)
    obtain found1 new where
      add: "add_referenced s rs (add_citing s cs (found_ids ?st, [])) = (found1, new)"
      by (cases "add_referenced s rs (add_citing s cs (found_ids ?st, []))")
    from fetch Inr nb
    have f: "get_citing_and_referenced_papers net (pid s) w = (Inr (cs, rs), w1)"
      by simp
    have "\<forall>q\<in>set new. get_path_depth q = Suc (get_path_depth s)"
      using expand_facts(4) [OF f add] .
    then have deeper: "\<forall>q\<in>set (news @ new). 0 < get_path_depth q"
      using Cons.prems(2) by auto
    have "bfs_loop net 0 roster ?st w =
        bfs_loop net 0 roster
          \<lparr>fringe = seeds @ (news @ new), found_ids = found1,
           findings = check_papers new roster fnd\<rparr> w1"
      using bfs_loop_expand [OF fr le f add, of roster] by simp
    also have "\<dots> = Some (seed_pass net roster seeds (news @ new) found1
        (check_papers new roster fnd) w1)"
      using Cons.prems(1) deeper by (intro Cons.IH) simp_all
    finally show ?thesis
      using f add by simp
  qed
qed

lemma check_editor_keeps:
  "p \<in> set (papers_of fnd e') \<Longrightarrow> p \<in> set (papers_of (check_editor e ids batch fnd) e')"
  by (auto simp: check_editor_eq papers_of_def split: option.splits)

lemma check_editor_records:
  "p \<in> set batch \<Longrightarrow> pid p \<in> ids \<Longrightarrow> p \<in> set (papers_of (check_editor e ids batch fnd) e)"
  by (auto simp: check_editor_eq papers_of_def filter_empty_conv split: option.splits)

lemma check_papers_keeps:
  "p \<in> set (papers_of fnd e) \<Longrightarrow> p \<in> set (papers_of (check_papers batch roster fnd) e)"
proof (induction roster arbitrary: fnd)
  case Nil
  then show ?case by simp
next
  case (Cons entry roster)
  obtain e' ids where "entry = (e', ids)"
    by (cases entry)
  with Cons show ?case
    by (simp add: check_editor_keeps)
qed

lemma check_papers_records:
  "(e, ids) \<in> set roster \<Longrightarrow> p \<in> set batch \<Longrightarrow> pid p \<in> set ids \<Longrightarrow>
     p \<in> set (papers_of (check_papers batch roster fnd) e)"
proof (induction roster arbitrary: fnd)
  case Nil
  then show ?case by simp
next
  case (Cons entry roster)
  obtain e' ids' where entry: "entry = (e', ids')"
    by (cases entry)
  show ?case
  proof (cases "(e, ids) = entry")
    case True
    with entry Cons.prems show ?thesis
      by (simp add: check_papers_keeps check_editor_records)
  next
    case False
    with entry Cons.prems have "(e, ids) \<in> set roster"
      by auto
    from Cons.IH [OF this Cons.prems(2,3)] entry show ?thesis
      by simp
  qed
qed

lemma seed_pass_recorded:
  assumes "\<forall>e ids i. (e, ids) \<in> set roster \<and> i \<in> found \<and> i \<in> set ids \<longrightarrow>
             (\<exists>p\<in>set (papers_of fnd e). pid p = i)"
      and "seed_pass net roster seeds news found fnd w = (Inr st, w')"
  shows "\<forall>e ids i. (e, ids) \<in> set roster \<and> i \<in> found_ids st \<and> i \<in> set ids \<longrightarrow>
           (\<exists>p\<in>set (papers_of (findings st) e). pid p = i)"
  using assms
proof (induction seeds arbitrary: news found fnd w)
  case Nil
  then show ?case by auto
next
  case (Cons s seeds)
  obtain r w1 where fetch: "get_citing_and_referenced_papers net (pid s) w = (r, w1)"
    by (cases "get_citing_and_referenced_papers net (pid s) w")
  show ?case
  proof (cases r)
    case (Inl e)
    with fetch Cons.prems show ?thesis
      by (auto split: if_splits)
  next
    case (Inr nb)
    obtain cs rs where nb: "nb = (cs, rs)"
      by (cases nb)
    obtain found1 new where
      add: "add_referenced s rs (add_citing s cs (found, [])) = (found1, new)"
      by (cases "add_referenced s rs (add_citing s cs (found, []))")
    from fetch Inr nb
    have f: "get_citing_and_referenced_papers net (pid s) w = (Inr (cs, rs), w1)"
      by simp
    have found1: "found1 = found \<union> pid ` set new"
      using expand_facts(1) [OF f add] .
    have inv: "\<forall>e ids i. (e, ids) \<in> set roster \<and> i \<in> found1 \<and> i \<in> set ids \<longrightarrow>
        (\<exists>p\<in>set (papers_of (check_papers new roster fnd) e). pid p = i)"
    proof (intro allI impI, elim conjE)
      fix e ids i
      assume e: "(e, ids) \<in> set roster" and i: "i \<in> found1" "i \<in> set ids"
      from i(1) found1 consider "i \<in> found" | q where "q \<in> set new" "pid q = i"
        by auto
      then show "\<exists>p\<in>set (papers_of (check_papers new roster fnd) e). pid p = i"
      proof cases
        case 1
        with Cons.prems(1) e i(2) obtain p where "p \<in> set (papers_of fnd e)" "pid p = i"
          by blast
        then show ?thesis
          by (auto intro: check_papers_keeps)
      next
        case 2
        with e i(2) have "q \<in> set (papers_of (check_papers new roster fnd) e)"
          by (auto intro: check_papers_records)
        with 2 show ?thesis
          by auto
      qed
    qed
    have "seed_pass net roster seeds (news @ new) found1 (check_papers new roster fnd) w1 =
        (Inr st, w')"
      using Cons.prems(2) f add by simp
    from Cons.IH [OF inv this] show ?thesis .
  qed
qed

lemma retry_loop_responds:
  assumes "\<forall>i c. \<exists>r. net i c = Response r"
      and "0 < n \<or> response \<noteq> None"
  shows "\<exists>r. fst (retry_loop net url n wt response w) = Inr r"
  using assms(2)
proof (induction n arbitrary: wt response w)
  case 0
  then show ?case by auto
next
  case (Suc n)
  from assms(1) obtain r where r: "net (ncalls w) (GET url) = Response r"
    by blast
  show ?case
  proof (cases "status_code r = 429")
    case False
    with r show ?thesis
      by (simp add: http_def)
  next
    case True
    with r Suc.IH [of "Some r" "wt * 2" "time_sleep wt (w @ [Request (GET url)])"]
    show ?thesis
      by (simp add: http_def)
  qed
qed

lemma fetch_responds:
  assumes "\<forall>i c. \<exists>r. net i c = Response r"
  shows "\<exists>cs rs u. get_citing_and_referenced_papers net paper_id w =
           (Inr (cs, rs), w @ Request (GET (detail_url paper_id)) # u)"
proof -
  obtain res w1 where run: "get_citing_and_referenced_papers net paper_id w = (res, w1)"
    by (cases "get_citing_and_referenced_papers net paper_id w")
  from fetch_trace_first [OF run] obtain u where
    "w1 = w @ Request (GET (detail_url paper_id)) # u"
    by blast
  moreover obtain r where "fst (request_with_retries net (detail_url paper_id) 4 w) = Inr r"
    using retry_loop_responds [OF assms, of "nat 4" None "detail_url paper_id" 1 w]
    by (auto simp: request_with_retries_def)
  then have "\<exists>cs rs. res = Inr (cs, rs)"
    using run
    by (cases "request_with_retries net (detail_url paper_id) 4 w")
       (auto simp: get_citing_and_referenced_papers_def split: if_splits)
  ultimately show ?thesis
    using run by auto
qed

lemma seed_pass_fetches_all:
  assumes "\<forall>i c. \<exists>r. net i c = Response r"
  shows "\<exists>st u. seed_pass net roster seeds news found fnd w = (Inr st, w @ u) \<and>
           (\<forall>s\<in>set seeds. Request (GET (detail_url (pid s))) \<in> set u)"
proof (induction seeds arbitrary: news found fnd w)
  case Nil
  show ?case by simp
next
  case (Cons s seeds)
  from fetch_responds [OF assms, of "pid s" w] obtain cs rs u1 where
    f: "get_citing_and_referenced_papers net (pid s) w =
          (Inr (cs, rs), w @ Request (GET (detail_url (pid s))) # u1)"
    by blast
  let ?w1 = "w @ Request (GET (detail_url (pid s))) # u1"
  obtain found1 new where
    add: "add_referenced s rs (add_citing s cs (found, [])) = (found1, new)"
    by (cases "add_referenced s rs (add_citing s cs (found, []))")
  from Cons.IH [of "news @ new" found1 "check_papers new roster fnd" ?w1] obtain st u2 where
    rest: "seed_pass net roster seeds (news @ new) found1 (check_papers new roster fnd) ?w1 =
             (Inr st, ?w1 @ u2)"
      "\<forall>s\<in>set seeds. Request (GET (detail_url (pid s))) \<in> set u2"
    by blast
  let ?u = "Request (GET (detail_url (pid s))) # u1 @ u2"
  have "seed_pass net roster (s # seeds) news found fnd w = (Inr st, w @ ?u)"
    using f add rest(1) by simp
  moreover have "\<forall>s'\<in>set (s # seeds). Request (GET (detail_url (pid s'))) \<in> set ?u"
    using rest(2) by auto
  ultimately show ?case
    by blast
qed

text \<open>
  Claim C1, as stated, fails: the test at dequeue is \<^verbatim>\<open>get_path_depth() > depth\<close>,
  and a seed has depth 0, so with cutoff 0 the first dequeue expands the seed.
  Here the seed \<open>P1\<close> is fetched, its citing paper \<open>P2\<close> is match-checked and
  recorded for its editor, and the loop ends only at the second dequeue.
\<close>

theorem bfs_depth_zero_counterexample:
  "main_bfs
     (\<lambda>i c. Response \<lparr>status_code = 200, citations = Some [(''P2'', ''t2'')],
                        references = None\<rparr>)
     0 [(''Bob'', [''P2''])] [new_paper ''P1'' ''t1''] [] =
   Some (Inr \<lparr>fringe = [], found_ids = {''P1'', ''P2''},
              findings = [''Bob'' \<mapsto> [cited (new_paper ''P2'' ''t2'') (new_paper ''P1'' ''t1'')]]\<rparr>,
         [Request (GET (detail_url ''P1''))])"
  by (simp add: main_bfs_def bfs_loop.simps new_paper_def get_citing_and_referenced_papers_def
      request_with_retries_def http_def eval_nat_numeral response_ok_def insert_commute)

text \<open>
  Claim C1, amended. With cutoff 0 and unparented seeds the traversal is
  exactly one pass over the seeds, in order (\<open>seed_pass\<close>): each dequeued seed
  is expanded, its newly discovered neighbours are marked visited, enqueued
  and match-checked, and the first dequeue of a non-seed paper ends the loop
  without expanding it; a fetch that raises ends the run earlier. For a
  single seed the result is written out. Every request of the run fetches the
  neighbours of a seed, the first dequeue already sends one, and when the
  service answers every request all seeds are fetched. The papers recorded
  are seeds or papers whose parent is a seed, and every visited id that an
  editor owns is recorded for that editor. With a negative cutoff the loop
  ends on the very first dequeue, with no request and only the seeds
  match-checked.
\<close>

theorem bfs_depth_zero:
  assumes "\<forall>s\<in>set papers. get_path_depth s = 0"
  shows "main_bfs net 0 roster papers w =
           Some (seed_pass net roster papers [] (set (map pid papers))
                   (check_papers papers roster Map.empty) w) \<and>
         (papers = [s] \<and>
          get_citing_and_referenced_papers net (pid s) w = (Inr (cs, rs), w1) \<and>
          add_referenced s rs (add_citing s cs ({pid s}, [])) = (found, new) \<longrightarrow>
            main_bfs net 0 roster papers w =
              Some (Inr \<lparr>fringe = tl new, found_ids = found,
                         findings = check_papers new roster
                                      (check_papers [s] roster Map.empty)\<rparr>, w1)) \<and>
         (\<exists>res u. main_bfs net 0 roster papers w = Some (res, w @ u) \<and>
            (\<forall>c. Request c \<in> set u \<longrightarrow> (\<exists>s\<in>set papers. c = GET (detail_url (pid s)))) \<and>
            (\<forall>s rest. papers = s # rest \<longrightarrow>
               (\<exists>u'. u = Request (GET (detail_url (pid s))) # u')) \<and>
            ((\<forall>i c. \<exists>r. net i c = Response r) \<longrightarrow>
               (\<exists>st. res = Inr st) \<and>
               (\<forall>s\<in>set papers. Request (GET (detail_url (pid s))) \<in> set u)) \<and>
            (\<forall>st. res = Inr st \<longrightarrow>
               (\<forall>editor. \<forall>p\<in>set (papers_of (findings st) editor). near_seed papers p) \<and>
               (\<forall>e ids i. (e, ids) \<in> set roster \<and> i \<in> found_ids st \<and> i \<in> set ids \<longrightarrow>
                  (\<exists>p\<in>set (papers_of (findings st) e). pid p = i)))) \<and>
         (depth < 0 \<and> papers = s # rest \<longrightarrow>
            main_bfs net depth roster papers w =
              Some (Inr \<lparr>fringe = rest, found_ids = set (map pid papers),
                         findings = check_papers papers roster Map.empty\<rparr>, w))"
proof (intro conjI)
  let ?f0 = "check_papers papers roster Map.empty"
  let ?st = "\<lparr>fringe = papers, found_ids = set (map pid papers), findings = ?f0\<rparr>"
  show pass: "main_bfs net 0 roster papers w =
      Some (seed_pass net roster papers [] (set (map pid papers)) ?f0 w)"
    using bfs_loop_seed_pass [OF assms, of "[]" net roster "set (map pid papers)" ?f0 w]
    by (simp add: main_bfs_def)
  show "papers = [s] \<and>
      get_citing_and_referenced_papers net (pid s) w = (Inr (cs, rs), w1) \<and>
      add_referenced s rs (add_citing s cs ({pid s}, [])) = (found, new) \<longrightarrow>
        main_bfs net 0 roster papers w =
          Some (Inr \<lparr>fringe = tl new, found_ids = found,
                     findings = check_papers new roster
                                  (check_papers [s] roster Map.empty)\<rparr>, w1)"
    using pass by auto
  have "\<forall>p\<in>set (fringe ?st). near_seed papers p"
    by (simp add: near_seed_def)
  moreover have "\<forall>e. \<forall>p\<in>set (papers_of (findings ?st) e). near_seed papers p"
  proof (intro allI ballI)
    fix e p
    assume "p \<in> set (papers_of (findings ?st) e)"
    then have "p \<in> set (papers_of (check_papers papers roster Map.empty) e)"
      by simp
    from check_papers_mem [OF this] show "near_seed papers p"
      by (simp add: near_seed_def papers_of_def)
  qed
  ultimately obtain res u where
    run: "bfs_loop net 0 roster ?st w = Some (res, w @ u)"
    and reqs: "\<forall>c. Request c \<in> set u \<longrightarrow> (\<exists>s\<in>set papers. c = GET (detail_url (pid s)))"
    and first: "\<forall>s rest. fringe ?st = s # rest \<and> get_path_depth s = 0 \<longrightarrow>
                  (\<exists>u'. u = Request (GET (detail_url (pid s))) # u')"
    and fin: "\<forall>st'. res = Inr st' \<longrightarrow>
                (\<forall>e. \<forall>p\<in>set (papers_of (findings st') e). near_seed papers p)"
    using bfs_loop_depth_zero [OF assms, of ?st net roster w] by blast
  have run': "main_bfs net 0 roster papers w = Some (res, w @ u)"
    using run by (simp add: main_bfs_def)
  with pass have sp: "seed_pass net roster papers [] (set (map pid papers)) ?f0 w = (res, w @ u)"
    by simp
  have first': "\<forall>s rest. papers = s # rest \<longrightarrow>
      (\<exists>u'. u = Request (GET (detail_url (pid s))) # u')"
    using first assms by auto
  have answered: "(\<forall>i c. \<exists>r. net i c = Response r) \<longrightarrow>
      (\<exists>st. res = Inr st) \<and> (\<forall>s\<in>set papers. Request (GET (detail_url (pid s))) \<in> set u)"
  proof
    assume "\<forall>i c. \<exists>r. net i c = Response r"
    from seed_pass_fetches_all [OF this, of roster papers "[]" "set (map pid papers)" ?f0 w]
    obtain st u' where "seed_pass net roster papers [] (set (map pid papers)) ?f0 w =
        (Inr st, w @ u')" "\<forall>s\<in>set papers. Request (GET (detail_url (pid s))) \<in> set u'"
      by blast
    with sp show "(\<exists>st. res = Inr st) \<and>
        (\<forall>s\<in>set papers. Request (GET (detail_url (pid s))) \<in> set u)"
      by auto
  qed
  have init: "\<forall>e ids i. (e, ids) \<in> set roster \<and> i \<in> set (map pid papers) \<and> i \<in> set ids \<longrightarrow>
      (\<exists>p\<in>set (papers_of ?f0 e). pid p = i)"
    by (auto intro: check_papers_records)
  have recorded: "\<forall>st. res = Inr st \<longrightarrow>
      (\<forall>e ids i. (e, ids) \<in> set roster \<and> i \<in> found_ids st \<and> i \<in> set ids \<longrightarrow>
         (\<exists>p\<in>set (papers_of (findings st) e). pid p = i))"
  proof (rule allI, rule impI)
    fix st assume "res = Inr st"
    with sp have "seed_pass net roster papers [] (set (map pid papers)) ?f0 w = (Inr st, w @ u)"
      by simp
    from seed_pass_recorded [OF init this]
    show "\<forall>e ids i. (e, ids) \<in> set roster \<and> i \<in> found_ids st \<and> i \<in> set ids \<longrightarrow>
         (\<exists>p\<in>set (papers_of (findings st) e). pid p = i)" .
  qed
  show "\<exists>res u. main_bfs net 0 roster papers w = Some (res, w @ u) \<and>
            (\<forall>c. Request c \<in> set u \<longrightarrow> (\<exists>s\<in>set papers. c = GET (detail_url (pid s)))) \<and>
            (\<forall>s rest. papers = s # rest \<longrightarrow>
               (\<exists>u'. u = Request (GET (detail_url (pid s))) # u')) \<and>
            ((\<forall>i c. \<exists>r. net i c = Response r) \<longrightarrow>
               (\<exists>st. res = Inr st) \<and>
               (\<forall>s\<in>set papers. Request (GET (detail_url (pid s))) \<in> set u)) \<and>
            (\<forall>st. res = Inr st \<longrightarrow>
               (\<forall>editor. \<forall>p\<in>set (papers_of (findings st) editor). near_seed papers p) \<and>
               (\<forall>e ids i. (e, ids) \<in> set roster \<and> i \<in> found_ids st \<and> i \<in> set ids \<longrightarrow>
                  (\<exists>p\<in>set (papers_of (findings st) e). pid p = i)))"
    using run' reqs first' answered fin recorded
    by (intro exI [of _ res] exI [of _ u]) blast
  show "depth < 0 \<and> papers = s # rest \<longrightarrow>
            main_bfs net depth roster papers w =
              Some (Inr \<lparr>fringe = rest, found_ids = set (map pid papers),
                         findings = check_papers papers roster Map.empty\<rparr>, w)"
    by (auto simp: main_bfs_def bfs_loop_cutoff)
qed

theorem bfs_depth_zero_witness:
  "main_bfs
     (\<lambda>i c. Response \<lparr>status_code = 200, citations = Some [(''C'', ''c'')],
                        references = None\<rparr>)
     0 [(''E'', [''C''])] [new_paper ''A'' ''a'', new_paper ''B'' ''b''] [] =
   Some (Inr \<lparr>fringe = [], found_ids = {''A'', ''B'', ''C''},
              findings = [''E'' \<mapsto> [cited (new_paper ''C'' ''c'') (new_paper ''A'' ''a'')]]\<rparr>,
         [Request (GET (detail_url ''A'')), Request (GET (detail_url ''B''))]) \<and>
   main_bfs
     (\<lambda>i c. Response \<lparr>status_code = 200, citations = Some [(''C'', ''c'')],
                        references = None\<rparr>)
     (- 1) [(''E'', [''C''])] [new_paper ''A'' ''a'', new_paper ''B'' ''b''] [] =
   Some (Inr \<lparr>fringe = [new_paper ''B'' ''b''], found_ids = {''A'', ''B''},
              findings = Map.empty\<rparr>, [])"
  using bfs_depth_zero [where papers = "[new_paper ''A'' ''a'', new_paper ''B'' ''b'']"
      and net = "\<lambda>i c. Response \<lparr>status_code = 200, citations = Some [(''C'', ''c'')],
                                    references = None\<rparr>"
      and roster = "[(''E'', [''C''])]" and w = "[]" and depth = "- 1"
      and s = "new_paper ''A'' ''a''" and rest = "[new_paper ''B'' ''b'']"]
  by (simp add: new_paper_def get_citing_and_referenced_papers_def request_with_retries_def
      http_def eval_nat_numeral response_ok_def insert_commute)

section \<open>The bookkeeping of ids\<close>

text \<open>
  An expansion keeps the ids of the fringe distinct and inside \<^verbatim>\<open>found_ids\<close>,
  and \<^verbatim>\<open>found_ids\<close> only grows; so does a whole run of the loop that starts
  from a fringe of distinct ids.
\<close>

lemma expand_keeps_ids:
  assumes fr: "fringe st = paper # rest"
      and inv: "distinct (map pid (fringe st))" "pid ` set (fringe st) \<subseteq> found_ids st"
      and fetch: "get_citing_and_referenced_papers net (pid paper) w = (Inr (cs, rs), w1)"
      and add: "add_referenced paper rs (add_citing paper cs (found_ids st, [])) = (found, new)"
  shows "distinct (map pid (rest @ new))"
    and "pid ` set (rest @ new) \<subseteq> found"
    and "found_ids st \<subseteq> found"
  using expand_facts(1,2,3) [OF fetch add] fr inv by auto

lemma bfs_loop_keeps_ids:
  "distinct (map pid (fringe st)) \<and> pid ` set (fringe st) \<subseteq> found_ids st \<longrightarrow>
   (\<forall>st' w'. bfs_loop net depth roster st w = Some (Inr st', w') \<longrightarrow>
      distinct (map pid (fringe st')) \<and> pid ` set (fringe st') \<subseteq> found_ids st' \<and>
      found_ids st \<subseteq> found_ids st')"
proof (induction st w rule: bfs_loop_induct [where net = net and depth = depth and roster = roster])
  case (step st w)
  show ?case
  proof (intro impI allI, elim conjE)
    fix st' w'
    assume inv: "distinct (map pid (fringe st))" "pid ` set (fringe st) \<subseteq> found_ids st"
      and run: "bfs_loop net depth roster st w = Some (Inr st', w')"
    show "distinct (map pid (fringe st')) \<and> pid ` set (fringe st') \<subseteq> found_ids st' \<and>
      found_ids st \<subseteq> found_ids st'"
    proof (cases "fringe st")
      case Nil
      with run inv show ?thesis
        by (simp add: bfs_loop_Nil)
    next
      case (Cons paper rest)
      show ?thesis
      proof (cases "depth < int (get_path_depth paper)")
        case True
        with Cons run have "st' = st\<lparr>fringe := rest\<rparr>"
          by (simp add: bfs_loop_cutoff)
        with Cons inv show ?thesis
          by auto
      next
        case False
        then have le: "int (get_path_depth paper) \<le> depth"
          by simp
        obtain r w1 where fetch: "get_citing_and_referenced_papers net (pid paper) w = (r, w1)"
          by (cases "get_citing_and_referenced_papers net (pid paper) w")
        show ?thesis
        proof (cases r)
          case (Inl e)
          with bfs_loop_raise [OF Cons le] fetch run have "st' = st\<lparr>fringe := rest\<rparr>"
            by (auto split: if_splits)
          with Cons inv show ?thesis
            by auto
        next
          case (Inr nb)
          obtain cs rs where nb: "nb = (cs, rs)"
            by (cases nb)
          obtain found new where
            add: "add_referenced paper rs (add_citing paper cs (found_ids st, [])) = (found, new)"
            by (cases "add_referenced paper rs (add_citing paper cs (found_ids st, []))")
          from fetch Inr nb
          have f: "get_citing_and_referenced_papers net (pid paper) w = (Inr (cs, rs), w1)"
            by simp
          let ?st1 = "\<lparr>fringe = rest @ new, found_ids = found,
                       findings = check_papers new roster (findings st)\<rparr>"
          note keep = expand_keeps_ids [OF Cons inv f add]
          have "bfs_loop net depth roster ?st1 w1 = Some (Inr st', w')"
            using bfs_loop_expand [OF Cons le f add] run by simp
          with step [OF Cons le f add] keep(1,2)
          have "distinct (map pid (fringe st')) \<and> pid ` set (fringe st') \<subseteq> found_ids st' \<and>
              found \<subseteq> found_ids st'"
            by simp
          with keep(3) show ?thesis
            by auto
        qed
      qed
    qed
  qed
qed

section \<open>Seeds with the same id\<close>

text \<open>
  Claim C7. The expansion step enqueues only papers whose id is not yet in
  \<^verbatim>\<open>found_ids\<close> (lemmas \<open>expand_facts\<close> and \<open>expand_keeps_ids\<close>), but the
  initial fringe is the list of seeds as it is. Two seeds with the same id are both enqueued: the paper is
  fetched twice and recorded twice for its editor, while \<^verbatim>\<open>found_ids\<close> holds
  its id once.
\<close>

theorem bfs_duplicate_seeds:
  "main_bfs (\<lambda>i c. Response \<lparr>status_code = 404, citations = None, references = None\<rparr>)
     2 [(''E'', [''P1''])] [new_paper ''P1'' ''t'', new_paper ''P1'' ''t''] [] =
   Some (Inr \<lparr>fringe = [], found_ids = {''P1''},
              findings = [''E'' \<mapsto> [new_paper ''P1'' ''t'', new_paper ''P1'' ''t'']]\<rparr>,
         [Request (GET (detail_url ''P1'')), Request (GET (detail_url ''P1''))])"
  by (simp add: main_bfs_def bfs_loop.simps new_paper_def get_citing_and_referenced_papers_def
      request_with_retries_def http_def eval_nat_numeral response_ok_def)

end
